theory Spec2Isabelle
  imports Main "HOL-Library.AList" "HOL-Library.Sublist"
begin

section \<open>Session management of the dataset viewer quiz (session\_manager.py)\<close>

text \<open>
  A session is a Python dictionary that is written to and read from JSON files. The
  model keeps the fields of \<open>create_empty_session\<close>. The four fields that
  \<open>record_answer_allow_change\<close> treats as possibly absent (sessions written by an
  older version) are optional; reading an absent one with \<open>session["..."]\<close> is a
  \<open>KeyError\<close>. Dictionaries keep insertion order, so \<open>answers\<close> is an association
  list from the key \<open>str(row_idx)\<close> to the answer record; \<open>d[k] = v\<close> is
  \<open>AList.update\<close> (overwrite in place, or append a new key) and \<open>len(d)\<close> is the
  length of the list. A dictionary holds no key twice; \<open>AList.update\<close> keeps a list
  free of double keys, so the answers of every session made by the functions below are.
\<close>

subsection \<open>Errors\<close>

text \<open>
  \<open>IOError\<close> is Python's \<open>OSError\<close> under its older name. \<open>JSONDecodeError\<close> and
  \<open>UnicodeDecodeError\<close> are subclasses of \<open>ValueError\<close>; an \<open>except\<close> clause that
  names \<open>JSONDecodeError\<close> catches neither \<open>UnicodeDecodeError\<close> nor a plain
  \<open>ValueError\<close>.
\<close>

datatype py_error =
  KeyError | ValueError | IOError | JSONDecodeError | UnicodeDecodeError | RecursionError
  | ZeroDivisionError

subsection \<open>Data model\<close>

record answer_record =
  question :: string
  user_answer :: string
  correct_answer :: string
  is_correct :: bool
  query_object :: string
  timestamp :: string

type_synonym answers_dict = "(string \<times> answer_record) list"

record session =
  session_id :: string
  created_at :: string
  updated_at :: string
  dataset :: string
  split_subset :: string
  total_questions :: int
  answered_count :: "int option"
  correct_count :: "int option"
  incorrect_count :: "int option"
  answers :: "answers_dict option"
  bookmarks :: "int list"
  current_row :: int

text \<open>
  A file of the sessions directory, by what \<open>open(path, "r")\<close> and \<open>json.load\<close> do
  with it:
  \<^item> \<open>Unreadable\<close>: opening or reading it raises \<open>IOError\<close>;
  \<^item> \<open>Undecodable\<close>: its bytes are no text in the encoding of the text mode, and
    reading it raises \<open>UnicodeDecodeError\<close>;
  \<^item> \<open>Garbage c\<close>: it holds text \<open>c\<close> that \<open>json.load\<close> rejects with
    \<open>JSONDecodeError\<close>;
  \<^item> \<open>TooDeep\<close>: it holds text nested deeper than the interpreter's recursion limit
    (an opening bracket repeated many thousand times), and \<open>json.load\<close> raises
    \<open>RecursionError\<close>;
  \<^item> \<open>LongNumber\<close>: it holds JSON with an integer literal of more digits than the
    interpreter converts, and \<open>json.load\<close> raises \<open>ValueError\<close>;
  \<^item> \<open>Json s\<close>: it holds what \<open>json.dump\<close> writes for \<open>s\<close>, and \<open>json.load\<close> reads
    \<open>s\<close> back.

  The sessions directory exists (so that \<open>ensure_sessions_dir\<close> has nothing to do) and
  holds files only: the live session file \<open>current_session.json\<close>, if any, and the
  archives \<open>session_<id>.json\<close>, listed under their \<open><id>\<close> in the order in which
  \<open>glob("session_*.json")\<close> enumerates them; an id is part of a file name and holds no
  path separator, and file names are told apart exactly (a case-sensitive file system). \<open>refuses d n\<close> says that the file system
  refuses the file name \<open>n\<close> (a name longer than it allows): \<open>Path.exists\<close> on it raises
  \<open>OSError\<close>.
\<close>

datatype stored_file =
  Unreadable | Undecodable | Garbage string | TooDeep | LongNumber | Json session

record sessions_dir =
  current_file :: "stored_file option"
  archives :: "(string \<times> stored_file) list"
  refuses :: "string \<Rightarrow> bool"

subsection \<open>\<open>str(row_idx)\<close> and \<open>int(key)\<close>\<close>

definition digit_char :: "nat \<Rightarrow> char" where
  "digit_char d = ''0123456789'' ! d"

fun str_nat :: "nat \<Rightarrow> string" where
  "str_nat n = (if n < 10 then [digit_char n] else str_nat (n div 10) @ [digit_char (n mod 10)])"

declare str_nat.simps [simp del]

text \<open>\<open>str\<close> on an integer: decimal digits, a leading minus sign for a negative one.\<close>

definition str_int :: "int \<Rightarrow> string" where
  "str_int i = (if i < 0 then CHR ''-'' # str_nat (nat (- i)) else str_nat (nat i))"

definition is_digit :: "char \<Rightarrow> bool" where
  "is_digit c = (c \<in> set ''0123456789'')"

definition digit_val :: "char \<Rightarrow> nat" where
  "digit_val c = of_char c - 48"

fun parse_digits :: "nat \<Rightarrow> string \<Rightarrow> nat option" where
  "parse_digits acc [] = Some acc"
| "parse_digits acc (c # cs) =
     (if is_digit c then parse_digits (10 * acc + digit_val c) cs else None)"

text \<open>
  \<open>int\<close> on a string, for the strings the program stores as keys: an optional sign and
  at least one decimal digit; anything else is a \<open>ValueError\<close>. (Python's \<open>int\<close> also
  strips surrounding white space and accepts underscores between digits; no such key is
  written by \<open>str\<close>, and the theorems below only read keys written by \<open>str\<close>.)
\<close>

definition int_of_str :: "string \<Rightarrow> py_error + int" where
  "int_of_str k =
     (case k of
        [] \<Rightarrow> Inl ValueError
      | c # cs \<Rightarrow>
          if c = CHR ''-'' \<or> c = CHR ''+'' then
            (if cs = [] then Inl ValueError
             else case parse_digits 0 cs of
                    None \<Rightarrow> Inl ValueError
                  | Some n \<Rightarrow> Inr (if c = CHR ''-'' then - int n else int n))
          else case parse_digits 0 (c # cs) of
                 None \<Rightarrow> Inl ValueError
               | Some n \<Rightarrow> Inr (int n))"

subsection \<open>Creating, loading and saving\<close>

text \<open>
  \<open>datetime.now()\<close> is read from the environment; every function that reads the clock
  takes the formatted time as an argument.
\<close>

definition create_empty_session :: "string \<Rightarrow> string \<Rightarrow> string \<Rightarrow> string \<Rightarrow> string \<Rightarrow> session" where
  "create_empty_session now_id now_created now_updated ds sp =
     \<lparr> session_id = now_id,
       created_at = now_created,
       updated_at = now_updated,
       dataset = ds,
       split_subset = sp,
       total_questions = 0,
       answered_count = Some 0,
       correct_count = Some 0,
       incorrect_count = Some 0,
       answers = Some [],
       bookmarks = [],
       current_row = 0 \<rparr>"




text \<open>
  \<open>save_current_session\<close> refreshes \<open>updated_at\<close> in the dictionary it is given and
  overwrites the live session file; it returns the directory and the mutated session.
\<close>

definition save_current_session :: "string \<Rightarrow> sessions_dir \<Rightarrow> session \<Rightarrow> sessions_dir \<times> session" where
  "save_current_session now d s =
     (let s' = s\<lparr>updated_at := now\<rparr>
      in (d\<lparr>current_file := Some (Json s')\<rparr>, s'))"

subsection \<open>Recording answers\<close>

definition new_record :: "string \<Rightarrow> string \<Rightarrow> string \<Rightarrow> bool \<Rightarrow> string \<Rightarrow> string \<Rightarrow> answer_record" where
  "new_record q ua ca ok qo ts =
     \<lparr> question = q, user_answer = ua, correct_answer = ca, is_correct = ok,
       query_object = qo, timestamp = ts \<rparr>"

text \<open>\<open>session["correct_count"] += 1\<close> and \<open>session["incorrect_count"] += 1\<close>\<close>

definition incr_correct :: "session \<Rightarrow> py_error + session" where
  "incr_correct s =
     (case correct_count s of
        None \<Rightarrow> Inl KeyError
      | Some c \<Rightarrow> Inr (s\<lparr>correct_count := Some (c + 1)\<rparr>))"

definition incr_incorrect :: "session \<Rightarrow> py_error + session" where
  "incr_incorrect s =
     (case incorrect_count s of
        None \<Rightarrow> Inl KeyError
      | Some c \<Rightarrow> Inr (s\<lparr>incorrect_count := Some (c + 1)\<rparr>))"

text \<open>
  \<open>record_answer\<close> (first answer only). \<open>ts\<close> is the clock read for the record's
  timestamp, \<open>now\<close> the one read by the save.
\<close>

definition record_answer ::
  "string \<Rightarrow> string \<Rightarrow> sessions_dir \<Rightarrow> session \<Rightarrow> int \<Rightarrow> string \<Rightarrow> string \<Rightarrow> string \<Rightarrow> bool \<Rightarrow> string
     \<Rightarrow> py_error + (sessions_dir \<times> session)" where
  "record_answer ts now d s row_idx q ua ca ok qo =
     (let row_key = str_int row_idx in
      case answers s of
        None \<Rightarrow> Inl KeyError
      | Some al \<Rightarrow>
          if row_key \<notin> fst ` set al then
            (let al' = AList.update row_key (new_record q ua ca ok qo ts) al;
                 s1 = s\<lparr>answers := Some al'\<rparr>;
                 s2 = s1\<lparr>answered_count := Some (int (length al'))\<rparr>
             in case (if ok then incr_correct s2 else incr_incorrect s2) of
                  Inl e \<Rightarrow> Inl e
                | Inr s3 \<Rightarrow> Inr (save_current_session now d s3))
          else Inr (d, s))"

text \<open>
  The two generator sums of \<open>record_answer_allow_change\<close>:
  \<open>sum(1 for a in answers.values() if a.get("is_correct"))\<close> and the same with
  \<open>not\<close>.
\<close>

definition sum_correct :: "answers_dict \<Rightarrow> int" where
  "sum_correct al = sum_list (map (\<lambda>a. 1) (filter (\<lambda>a. is_correct a) (map snd al)))"

definition sum_incorrect :: "answers_dict \<Rightarrow> int" where
  "sum_incorrect al = sum_list (map (\<lambda>a. 1) (filter (\<lambda>a. \<not> is_correct a) (map snd al)))"

text \<open>\<open>session.get("answers", {})\<close> and \<open>session.get(count, 0)\<close>\<close>

definition get_answers :: "session \<Rightarrow> answers_dict" where
  "get_answers s = (case answers s of None \<Rightarrow> [] | Some al \<Rightarrow> al)"

definition get_count :: "int option \<Rightarrow> int" where
  "get_count c = (case c of None \<Rightarrow> 0 | Some n \<Rightarrow> n)"

text \<open>Lines 122 to 132: the fields a session of an older version lacks.\<close>

definition init_missing_fields :: "session \<Rightarrow> session" where
  "init_missing_fields s =
     (let s1 = (if answers s = None then s\<lparr>answers := Some []\<rparr> else s);
          s2 = (if answered_count s1 = None
                then s1\<lparr>answered_count := Some (int (length (get_answers s1)))\<rparr> else s1);
          s3 = (if correct_count s2 = None
                then s2\<lparr>correct_count := Some (sum_correct (get_answers s2))\<rparr> else s2);
          s4 = (if incorrect_count s3 = None
                then s3\<lparr>incorrect_count := Some (sum_incorrect (get_answers s3))\<rparr> else s3)
      in s4)"

text \<open>Lines 134 to 140: take the changed answer out of its bucket, floored at zero.\<close>

definition remove_old_count :: "bool \<Rightarrow> bool \<Rightarrow> session \<Rightarrow> session" where
  "remove_old_count was_answered previous_correct s =
     (if was_answered then
        (if previous_correct
         then s\<lparr>correct_count := Some (max 0 (get_count (correct_count s) - 1))\<rparr>
         else s\<lparr>incorrect_count := Some (max 0 (get_count (incorrect_count s) - 1))\<rparr>)
      else s)"

definition record_answer_allow_change ::
  "string \<Rightarrow> string \<Rightarrow> sessions_dir \<Rightarrow> session \<Rightarrow> int \<Rightarrow> string \<Rightarrow> string \<Rightarrow> string \<Rightarrow> bool \<Rightarrow> string
     \<Rightarrow> bool \<Rightarrow> bool \<Rightarrow> py_error + (sessions_dir \<times> session)" where
  "record_answer_allow_change ts now d s row_idx q ua ca ok qo was_answered previous_correct =
     (let row_key = str_int row_idx;
          s1 = init_missing_fields s;
          s2 = remove_old_count was_answered previous_correct s1
      in case answers s2 of
           None \<Rightarrow> Inl KeyError
         | Some al \<Rightarrow>
             (let al' = AList.update row_key (new_record q ua ca ok qo ts) al;
                  s3 = s2\<lparr>answers := Some al'\<rparr>;
                  s4 = s3\<lparr>answered_count := Some (int (length al'))\<rparr>;
                  s5 = (if ok
                        then s4\<lparr>correct_count := Some (get_count (correct_count s4) + 1)\<rparr>
                        else s4\<lparr>incorrect_count := Some (get_count (incorrect_count s4) + 1)\<rparr>)
              in Inr (save_current_session now d s5)))"

text \<open>
  What the specification asks of the initialisation, in its words: a missing
  \<open>answers\<close> becomes the empty mapping, and a missing count is derived from the
  answers that exist: \<open>answered_count\<close> is their number, \<open>correct_count\<close> the number
  of records with \<open>is_correct\<close> true, \<open>incorrect_count\<close> the number with \<open>is_correct\<close>
  false. Fields that are present are kept.
\<close>

definition derive_missing :: "session \<Rightarrow> session" where
  "derive_missing s =
     (let al = (case answers s of None \<Rightarrow> [] | Some al \<Rightarrow> al) in
      s\<lparr> answers := Some al,
         answered_count :=
           Some (case answered_count s of Some a \<Rightarrow> a | None \<Rightarrow> int (length al)),
         correct_count :=
           Some (case correct_count s of Some c \<Rightarrow> c
                 | None \<Rightarrow> int (length (filter (\<lambda>(k, r). is_correct r) al))),
         incorrect_count :=
           Some (case incorrect_count s of Some c \<Rightarrow> c
                 | None \<Rightarrow> int (length (filter (\<lambda>(k, r). \<not> is_correct r) al))) \<rparr>)"

subsection \<open>Bookmarks\<close>

text \<open>\<open>list.remove\<close> deletes the first occurrence only, as \<open>remove1\<close> does.\<close>

definition toggle_bookmark :: "string \<Rightarrow> sessions_dir \<Rightarrow> session \<Rightarrow> int \<Rightarrow> sessions_dir \<times> session" where
  "toggle_bookmark now d s row_idx =
     (let s1 = (if row_idx \<in> set (bookmarks s)
                then s\<lparr>bookmarks := remove1 row_idx (bookmarks s)\<rparr>
                else s\<lparr>bookmarks := bookmarks s @ [row_idx]\<rparr>)
      in save_current_session now d s1)"

text \<open>A history of toggle calls, one clock reading and one row per call.\<close>

fun toggle_history :: "sessions_dir \<Rightarrow> session \<Rightarrow> (string \<times> int) list \<Rightarrow> sessions_dir \<times> session" where
  "toggle_history d s [] = (d, s)"
| "toggle_history d s ((now, row_idx) # calls) =
     (case toggle_bookmark now d s row_idx of (d', s') \<Rightarrow> toggle_history d' s' calls)"

definition is_row_bookmarked :: "session \<Rightarrow> int \<Rightarrow> bool" where
  "is_row_bookmarked s row_idx = (row_idx \<in> set (bookmarks s))"

text \<open>\<open>toggle(toggle(S, r), r)\<close>\<close>

definition toggle_twice ::
  "string \<Rightarrow> string \<Rightarrow> sessions_dir \<Rightarrow> session \<Rightarrow> int \<Rightarrow> sessions_dir \<times> session" where
  "toggle_twice now1 now2 d s row_idx =
     (case toggle_bookmark now1 d s row_idx of
        (d', s') \<Rightarrow> toggle_bookmark now2 d' s' row_idx)"

subsection \<open>Navigation\<close>

definition is_row_answered :: "session \<Rightarrow> int \<Rightarrow> py_error + bool" where
  "is_row_answered s row_idx =
     (case answers s of
        None \<Rightarrow> Inl KeyError
      | Some al \<Rightarrow> Inr (str_int row_idx \<in> fst ` set al))"

text \<open>Python's \<open>%\<close> on integers: the sign of the result follows the divisor, as \<open>mod\<close> on \<open>int\<close>.\<close>

definition py_mod :: "int \<Rightarrow> int \<Rightarrow> py_error + int" where
  "py_mod a b = (if b = 0 then Inl ZeroDivisionError else Inr (a mod b))"

text \<open>The \<open>while\<close> loop of \<open>get_next_unanswered_row\<close>, from the state \<open>(checked, idx)\<close>.\<close>

function unanswered_loop :: "session \<Rightarrow> int \<Rightarrow> int \<Rightarrow> int \<Rightarrow> int \<Rightarrow> int \<Rightarrow> py_error + int" where
  "unanswered_loop s current_idx total_rows direction checked idx =
     (if checked < total_rows then
        (case py_mod (idx + direction) total_rows of
           Inl e \<Rightarrow> Inl e
         | Inr idx' \<Rightarrow>
             (case is_row_answered s idx' of
                Inl e \<Rightarrow> Inl e
              | Inr a \<Rightarrow>
                  if \<not> a then Inr idx'
                  else unanswered_loop s current_idx total_rows direction (checked + 1) idx'))
      else Inr current_idx)"
  by pat_completeness auto
termination
  by (relation "measure (\<lambda>(s, current_idx, total_rows, direction, checked, idx).
        nat (total_rows - checked))") auto

declare unanswered_loop.simps [simp del]

definition get_next_unanswered_row :: "session \<Rightarrow> int \<Rightarrow> int \<Rightarrow> int \<Rightarrow> py_error + int" where
  "get_next_unanswered_row s current_idx total_rows direction =
     unanswered_loop s current_idx total_rows direction 0 current_idx"

text \<open>\<open>[int(k) for k in keys]\<close>: the first key that is no integer raises.\<close>

fun int_keys :: "string list \<Rightarrow> py_error + int list" where
  "int_keys [] = Inr []"
| "int_keys (k # ks) =
     (case int_of_str k of
        Inl e \<Rightarrow> Inl e
      | Inr i \<Rightarrow> (case int_keys ks of Inl e \<Rightarrow> Inl e | Inr is \<Rightarrow> Inr (i # is)))"

text \<open>The argument is \<open>None\<close> when the caller passes \<open>None\<close> for the session.\<close>

definition get_answered_rows :: "session option \<Rightarrow> py_error + int list" where
  "get_answered_rows so =
     (case so of
        None \<Rightarrow> Inr []
      | Some s \<Rightarrow>
          (case answers s of
             None \<Rightarrow> Inr []
           | Some al \<Rightarrow>
               (case int_keys (map fst al) of
                  Inl e \<Rightarrow> Inl e
                | Inr is \<Rightarrow> Inr (sort is))))"

definition get_next_answered_row :: "session \<Rightarrow> int \<Rightarrow> int \<Rightarrow> py_error + int option" where
  "get_next_answered_row s current_idx direction =
     (case get_answered_rows (Some s) of
        Inl e \<Rightarrow> Inl e
      | Inr answered \<Rightarrow>
          if answered = [] then Inr None
          else if direction = 1 then
            (case find (\<lambda>idx. idx > current_idx) answered of
               Some idx \<Rightarrow> Inr (Some idx)
             | None \<Rightarrow> Inr (Some (hd answered)))
          else
            (case find (\<lambda>idx. idx < current_idx) (rev answered) of
               Some idx \<Rightarrow> Inr (Some idx)
             | None \<Rightarrow> Inr (Some (last answered))))"

subsection \<open>Looking an archive up\<close>






subsection \<open>Sessions reachable through the recorder\<close>

text \<open>
  The equality of the counts: \<open>answered_count == correct_count + incorrect_count ==
  len(answers)\<close>, all four fields being present.
\<close>

definition counts_agree :: "session \<Rightarrow> bool" where
  "counts_agree s =
     (case (answered_count s, correct_count s, incorrect_count s, answers s) of
        (Some a, Some c, Some i, Some al) \<Rightarrow> a = c + i \<and> a = int (length al)
      | _ \<Rightarrow> False)"

text \<open>
  The sessions obtained from a new session by calls of the two recording functions,
  \<open>record_answer_allow_change\<close> with any two flags.
\<close>

inductive recorder_reachable :: "session \<Rightarrow> bool" where
  rr_create: "recorder_reachable (create_empty_session now_id now_created now_updated ds sp)"
| rr_record:
    "recorder_reachable s \<Longrightarrow>
     record_answer ts now d s row_idx q ua ca ok qo = Inr (d', s') \<Longrightarrow>
     recorder_reachable s'"
| rr_change:
    "recorder_reachable s \<Longrightarrow>
     record_answer_allow_change ts now d s row_idx q ua ca ok qo was_answered previous_correct
       = Inr (d', s') \<Longrightarrow>
     recorder_reachable s'"

text \<open>
  The flags say what the session holds: \<open>was_answered\<close> exactly when the row has a
  record, and then \<open>previous_correct\<close> is that record's \<open>is_correct\<close>. The only caller,
  \<open>check_answer_and_save\<close> of viewer.py, computes them so:
  \<open>was_answered = row_key in session.get("answers", {})\<close> and, when it holds,
  \<open>previous_correct = session["answers"][row_key].get("is_correct", False)\<close>.
\<close>

definition truthful_flags :: "session \<Rightarrow> int \<Rightarrow> bool \<Rightarrow> bool \<Rightarrow> bool" where
  "truthful_flags s row_idx was_answered previous_correct =
     (case map_of (get_answers s) (str_int row_idx) of
        None \<Rightarrow> \<not> was_answered
      | Some r \<Rightarrow> was_answered \<and> previous_correct = is_correct r)"

text \<open>
  The flags as \<open>check_answer_and_save\<close> computes them (viewer.py, lines 638 to 643).
\<close>

definition check_answer_flags :: "session \<Rightarrow> int \<Rightarrow> bool \<times> bool" where
  "check_answer_flags s row_idx =
     (let row_key = str_int row_idx;
          was_answered = (row_key \<in> fst ` set (get_answers s))
      in if was_answered then
           (case map_of (get_answers s) row_key of
              Some r \<Rightarrow> (was_answered, is_correct r)
            | None \<Rightarrow> (was_answered, False))
         else (was_answered, False))"

inductive truthful_reachable :: "session \<Rightarrow> bool" where
  tr_create: "truthful_reachable (create_empty_session now_id now_created now_updated ds sp)"
| tr_record:
    "truthful_reachable s \<Longrightarrow>
     record_answer ts now d s row_idx q ua ca ok qo = Inr (d', s') \<Longrightarrow>
     truthful_reachable s'"
| tr_change:
    "truthful_reachable s \<Longrightarrow>
     truthful_flags s row_idx was_answered previous_correct \<Longrightarrow>
     record_answer_allow_change ts now d s row_idx q ua ca ok qo was_answered previous_correct
       = Inr (d', s') \<Longrightarrow>
     truthful_reachable s'"

text \<open>
  The counts are the tallies of the records: the invariant behind the equality.
\<close>

definition tallied :: "session \<Rightarrow> bool" where
  "tallied s =
     (\<exists>al. answers s = Some al \<and> distinct (map fst al) \<and>
           answered_count s = Some (int (length al)) \<and>
           correct_count s = Some (sum_correct al) \<and>
           incorrect_count s = Some (sum_incorrect al))"

subsection \<open>Concrete sessions and directories\<close>

definition fresh_session :: session where
  "fresh_session = create_empty_session ''20260214_120040'' ''t0'' ''t0'' ''ds'' ''sp''"

text \<open>A file system that refuses the names of more than 255 characters.\<close>

definition over_255 :: "string \<Rightarrow> bool" where
  "over_255 n = (255 < length n)"

definition empty_dir :: sessions_dir where
  "empty_dir = \<lparr>current_file = None, archives = [], refuses = over_255\<rparr>"





definition saved :: "session \<Rightarrow> sessions_dir" where
  "saved s = \<lparr>current_file = Some (Json s), archives = [], refuses = over_255\<rparr>"

text \<open>Row 0 answered correctly.\<close>

definition row0_session :: session where
  "row0_session =
     fresh_session\<lparr>updated_at := ''t2'',
       answers := Some [(''0'', new_record ''q'' ''A'' ''A'' True ''obj'' ''t1'')],
       answered_count := Some 1, correct_count := Some 1\<rparr>"

text \<open>Then row 1 answered incorrectly, and then changed to the correct answer.\<close>

definition row01_session :: session where
  "row01_session =
     row0_session\<lparr>updated_at := ''t4'',
       answers := Some [(''0'', new_record ''q'' ''A'' ''A'' True ''obj'' ''t1''),
                        (''1'', new_record ''r'' ''B'' ''C'' False ''obj'' ''t3'')],
       answered_count := Some 2, incorrect_count := Some 1\<rparr>"

definition corrected_session :: session where
  "corrected_session =
     row01_session\<lparr>updated_at := ''t6'',
       answers := Some [(''0'', new_record ''q'' ''A'' ''A'' True ''obj'' ''t1''),
                        (''1'', new_record ''r'' ''C'' ''C'' True ''obj'' ''t5'')],
       correct_count := Some 2, incorrect_count := Some 0\<rparr>"

text \<open>Row 0 answered once and recorded a second time with \<open>was_answered = False\<close>.\<close>

definition drifted_session :: session where
  "drifted_session =
     fresh_session\<lparr>updated_at := ''t4'',
       answers := Some [(''0'', new_record ''q'' ''A'' ''A'' True ''obj'' ''t3'')],
       answered_count := Some 1, correct_count := Some 2\<rparr>"

text \<open>A session file whose bookmark list names row 1 twice.\<close>

definition duplicate_session :: session where
  "duplicate_session = fresh_session\<lparr>bookmarks := [1, 1]\<rparr>"

text \<open>Rows 0 and 2 of three answered, and all three rows answered.\<close>

definition rows02_session :: session where
  "rows02_session =
     fresh_session\<lparr>
       answers := Some [(''0'', new_record ''q'' ''A'' ''A'' True ''obj'' ''t1''),
                        (''2'', new_record ''q'' ''B'' ''B'' True ''obj'' ''t2'')],
       answered_count := Some 2, correct_count := Some 2\<rparr>"

definition rows012_session :: session where
  "rows012_session =
     fresh_session\<lparr>
       answers := Some [(''0'', new_record ''q'' ''A'' ''A'' True ''obj'' ''t1''),
                        (''2'', new_record ''q'' ''B'' ''B'' True ''obj'' ''t2''),
                        (''1'', new_record ''q'' ''C'' ''C'' True ''obj'' ''t3'')],
       answered_count := Some 3, correct_count := Some 3\<rparr>"

text \<open>Rows 0, 4 and 2 answered, in this order.\<close>

definition rows024_session :: session where
  "rows024_session =
     fresh_session\<lparr>
       answers := Some [(''0'', new_record ''q'' ''A'' ''A'' True ''obj'' ''t1''),
                        (''4'', new_record ''q'' ''B'' ''C'' False ''obj'' ''t2''),
                        (''2'', new_record ''q'' ''C'' ''C'' True ''obj'' ''t3'')],
       answered_count := Some 3, correct_count := Some 2, incorrect_count := Some 1\<rparr>"

text \<open>A session of an older version without the answers mapping and the counts.\<close>

definition old_session :: session where
  "old_session =
     \<lparr> session_id = ''20250101_090000'', created_at = ''t0'', updated_at = ''t0'',
       dataset = ''ds'', split_subset = ''sp'', total_questions = 3,
       answered_count = None, correct_count = None, incorrect_count = None,
       answers = None, bookmarks = [], current_row = 0 \<rparr>"

text \<open>
  A session of an older version: three answers (rows 0 and 2 correct, row 1 not) and no
  count field.
\<close>

definition legacy_session :: session where
  "legacy_session =
     \<lparr> session_id = ''20250101_090000'', created_at = ''t0'', updated_at = ''t0'',
       dataset = ''ds'', split_subset = ''sp'', total_questions = 3,
       answered_count = None, correct_count = None, incorrect_count = None,
       answers = Some [(''0'', new_record ''q'' ''A'' ''A'' True ''obj'' ''t1''),
                       (''1'', new_record ''r'' ''B'' ''C'' False ''obj'' ''t2''),
                       (''2'', new_record ''s'' ''D'' ''D'' True ''obj'' ''t3'')],
       bookmarks = [], current_row = 1 \<rparr>"




section \<open>Properties\<close>

subsection \<open>The session store\<close>







subsection \<open>Recording once\<close>

lemma str_int_0: "str_int 0 = ''0''"
  by (simp add: str_int_def str_nat.simps digit_char_def)

lemma str_int_1: "str_int 1 = ''1''"
  by (simp add: str_int_def str_nat.simps digit_char_def)

lemma record_answer_answered:
  assumes "answers s = Some al" and "str_int row_idx \<in> fst ` set al"
  shows "record_answer ts now d s row_idx q ua ca ok qo = Inr (d, s)"
  using assms by (simp add: record_answer_def)

lemma record_answer_key_present:
  assumes "record_answer ts now d s row_idx q ua ca ok qo = Inr (d1, s1)"
  shows "\<exists>al1. answers s1 = Some al1 \<and> str_int row_idx \<in> fst ` set al1"
proof (cases "answers s")
  case None
  with assms show ?thesis by (simp add: record_answer_def)
next
  case (Some al)
  show ?thesis
  proof (cases "str_int row_idx \<in> fst ` set al")
    case True
    with Some assms show ?thesis by (simp add: record_answer_def)
  next
    case False
    with Some assms show ?thesis
      by (auto simp: record_answer_def Let_def incr_correct_def incr_incorrect_def
          save_current_session_def dom_update
          split: if_splits option.splits sum.splits)
  qed
qed

text \<open>
  Claim C2. When the row already has a record, \<open>record_answer\<close> returns the session it
  was given and the directory it was given: no record, no count and no file changes,
  whatever the question, the answers, the correctness and the query object are. Hence a
  second \<open>record_answer\<close> for the row of a first one, with any other arguments, changes
  nothing.
\<close>

theorem record_answer_once_is_noop:
  "(answers s = Some al \<and> str_int row_idx \<in> fst ` set al \<longrightarrow>
      record_answer ts now d s row_idx q ua ca ok qo = Inr (d, s)) \<and>
   (record_answer ts now d s row_idx q ua ca ok qo = Inr (d1, s1) \<longrightarrow>
      record_answer ts' now' d1 s1 row_idx q' ua' ca' ok' qo' = Inr (d1, s1))"
proof (intro conjI impI)
  assume "answers s = Some al \<and> str_int row_idx \<in> fst ` set al"
  then show "record_answer ts now d s row_idx q ua ca ok qo = Inr (d, s)"
    by (simp add: record_answer_answered)
next
  assume "record_answer ts now d s row_idx q ua ca ok qo = Inr (d1, s1)"
  then obtain al1 where "answers s1 = Some al1" and "str_int row_idx \<in> fst ` set al1"
    using record_answer_key_present by blast
  then show "record_answer ts' now' d1 s1 row_idx q' ua' ca' ok' qo' = Inr (d1, s1)"
    by (rule record_answer_answered)
qed

theorem record_answer_once_is_noop_witness:
  "record_answer ''t1'' ''t2'' empty_dir fresh_session 0 ''q'' ''A'' ''A'' True ''obj''
     = Inr (saved row0_session, row0_session) \<and>
   record_answer ''t3'' ''t4'' (saved row0_session) row0_session 0 ''q'' ''B'' ''A'' False ''obj''
     = Inr (saved row0_session, row0_session)"
proof -
  have first: "record_answer ''t1'' ''t2'' empty_dir fresh_session 0 ''q'' ''A'' ''A'' True ''obj''
     = Inr (saved row0_session, row0_session)"
    by (simp add: record_answer_def str_int_0 fresh_session_def create_empty_session_def
        empty_dir_def saved_def row0_session_def incr_correct_def save_current_session_def
        Let_def)
  with record_answer_once_is_noop
    [of fresh_session "[]" 0 "''t1''" "''t2''" empty_dir "''q''" "''A''" "''A''" True "''obj''"
        "saved row0_session" row0_session "''t3''" "''t4''" "''q''" "''B''" "''A''" False "''obj''"]
  show ?thesis by simp
qed

subsection \<open>The counts of the recorder\<close>

lemma sum_ones: "sum_list (map (\<lambda>a. 1) xs) = int (length xs)"
  by (induction xs) auto

lemma sum_correct_length:
  "sum_correct al = int (length (filter (\<lambda>p. is_correct (snd p)) al))"
  by (simp add: sum_correct_def sum_ones filter_map comp_def)

lemma sum_incorrect_length:
  "sum_incorrect al = int (length (filter (\<lambda>p. \<not> is_correct (snd p)) al))"
  by (simp add: sum_incorrect_def sum_ones filter_map comp_def)

lemma sum_correct_incorrect: "sum_correct al + sum_incorrect al = int (length al)"
  unfolding sum_correct_length sum_incorrect_length
  using sum_length_filter_compl [of "\<lambda>p. is_correct (snd p)" al] by linarith

lemma sum_correct_update:
  "sum_correct (AList.update k v al) =
     (case map_of al k of
        None \<Rightarrow> sum_correct al + (if is_correct v then 1 else 0)
      | Some old \<Rightarrow> sum_correct al - (if is_correct old then 1 else 0)
                      + (if is_correct v then 1 else 0))"
  by (induction al) (auto simp: sum_correct_length split: option.splits)

lemma sum_incorrect_update:
  "sum_incorrect (AList.update k v al) =
     (case map_of al k of
        None \<Rightarrow> sum_incorrect al + (if is_correct v then 0 else 1)
      | Some old \<Rightarrow> sum_incorrect al - (if is_correct old then 0 else 1)
                      + (if is_correct v then 0 else 1))"
  by (induction al) (auto simp: sum_incorrect_length split: option.splits)

lemma sum_correct_pos:
  "map_of al k = Some old \<Longrightarrow> is_correct old \<Longrightarrow> 1 \<le> sum_correct al"
  by (induction al) (auto simp: sum_correct_length split: if_splits)

lemma sum_incorrect_pos:
  "map_of al k = Some old \<Longrightarrow> \<not> is_correct old \<Longrightarrow> 1 \<le> sum_incorrect al"
  by (induction al) (auto simp: sum_incorrect_length split: if_splits)

lemma length_update_alist:
  "length (AList.update k v al) = (case map_of al k of None \<Rightarrow> Suc (length al) | Some old \<Rightarrow> length al)"
  by (induction al) (auto split: option.splits)

lemma tallied_counts_agree: "tallied s \<Longrightarrow> counts_agree s"
  using sum_correct_incorrect by (auto simp: tallied_def counts_agree_def)

lemma tallied_create: "tallied (create_empty_session now_id now_created now_updated ds sp)"
  by (simp add: tallied_def create_empty_session_def sum_correct_def sum_incorrect_def)

lemma tallied_init: "tallied s \<Longrightarrow> init_missing_fields s = s"
  by (auto simp: tallied_def init_missing_fields_def Let_def)

lemma tallied_record_answer:
  assumes "tallied s" and "record_answer ts now d s row_idx q ua ca ok qo = Inr (d', s')"
  shows "tallied s'"
proof -
  from assms(1) obtain al where al: "answers s = Some al" "distinct (map fst al)"
    "answered_count s = Some (int (length al))" "correct_count s = Some (sum_correct al)"
    "incorrect_count s = Some (sum_incorrect al)"
    by (auto simp: tallied_def)
  show ?thesis
  proof (cases "str_int row_idx \<in> fst ` set al")
    case True
    with al assms show ?thesis by (simp add: record_answer_def)
  next
    case False
    then have none: "map_of al (str_int row_idx) = None"
      by (simp add: map_of_eq_None_iff)
    let ?al' = "AList.update (str_int row_idx) (new_record q ua ca ok qo ts) al"
    have d: "distinct (map fst ?al')" using al(2) by (rule distinct_update)
    have ok': "is_correct (new_record q ua ca ok qo ts) = ok" by (simp add: new_record_def)
    from False al assms(2) have "answers s' = Some ?al'"
      "answered_count s' = Some (int (length ?al'))"
      "correct_count s' = Some (sum_correct ?al')"
      "incorrect_count s' = Some (sum_incorrect ?al')"
      by (auto simp: record_answer_def Let_def incr_correct_def incr_incorrect_def
          save_current_session_def sum_correct_update sum_incorrect_update none ok'
          split: if_splits)
    with d show ?thesis by (auto simp: tallied_def)
  qed
qed

lemma tallied_record_answer_allow_change:
  assumes "tallied s" and "truthful_flags s row_idx was_answered previous_correct"
    and "record_answer_allow_change ts now d s row_idx q ua ca ok qo was_answered previous_correct
       = Inr (d', s')"
  shows "tallied s'"
proof -
  from assms(1) obtain al where al: "answers s = Some al" "distinct (map fst al)"
    "answered_count s = Some (int (length al))" "correct_count s = Some (sum_correct al)"
    "incorrect_count s = Some (sum_incorrect al)"
    by (auto simp: tallied_def)
  have init: "init_missing_fields s = s" using assms(1) by (rule tallied_init)
  let ?al' = "AList.update (str_int row_idx) (new_record q ua ca ok qo ts) al"
  have d: "distinct (map fst ?al')" using al(2) by (rule distinct_update)
  have ok': "is_correct (new_record q ua ca ok qo ts) = ok" by (simp add: new_record_def)
  have ga: "get_answers s = al" using al(1) by (simp add: get_answers_def)
  show ?thesis
  proof (cases "map_of al (str_int row_idx)")
    case None
    with assms(2) ga have wa: "\<not> was_answered" by (simp add: truthful_flags_def)
    from wa al assms(3) init have "answers s' = Some ?al'"
      "answered_count s' = Some (int (length ?al'))"
      "correct_count s' = Some (sum_correct ?al')"
      "incorrect_count s' = Some (sum_incorrect ?al')"
      by (auto simp: record_answer_allow_change_def Let_def remove_old_count_def get_count_def
          save_current_session_def sum_correct_update sum_incorrect_update None ok'
          split: if_splits)
    with d show ?thesis by (auto simp: tallied_def)
  next
    case (Some old)
    with assms(2) ga have wa: "was_answered" and pc: "previous_correct = is_correct old"
      by (simp_all add: truthful_flags_def)
    have pos: "is_correct old \<Longrightarrow> 1 \<le> sum_correct al"
      "\<not> is_correct old \<Longrightarrow> 1 \<le> sum_incorrect al"
      using Some sum_correct_pos sum_incorrect_pos by blast+
    from wa pc al assms(3) init pos have "answers s' = Some ?al'"
      "answered_count s' = Some (int (length ?al'))"
      "correct_count s' = Some (sum_correct ?al')"
      "incorrect_count s' = Some (sum_incorrect ?al')"
      by (auto simp: record_answer_allow_change_def Let_def remove_old_count_def get_count_def
          save_current_session_def sum_correct_update sum_incorrect_update Some ok'
          split: if_splits)
    with d show ?thesis by (auto simp: tallied_def)
  qed
qed

lemma check_answer_flags_truthful:
  "truthful_flags s row_idx (fst (check_answer_flags s row_idx)) (snd (check_answer_flags s row_idx))"
proof (cases "map_of (get_answers s) (str_int row_idx)")
  case None
  then have "str_int row_idx \<notin> fst ` set (get_answers s)"
    by (simp add: map_of_eq_None_iff)
  with None show ?thesis
    by (simp add: truthful_flags_def check_answer_flags_def)
next
  case (Some r)
  then have "str_int row_idx \<in> fst ` set (get_answers s)"
    by (metis map_of_eq_None_iff option.distinct(1))
  with Some show ?thesis
    by (simp add: truthful_flags_def check_answer_flags_def)
qed

text \<open>
  Claim C1, as amended. For every session reachable from \<open>create_empty_session\<close>
  through \<open>record_answer\<close> and through \<open>record_answer_allow_change\<close> called with
  truthful flags (\<open>was_answered\<close> exactly when the row already has a record,
  \<open>previous_correct\<close> then that record's \<open>is_correct\<close>), the counts are present and
  \<open>answered_count = correct_count + incorrect_count = len(answers)\<close> after every call,
  also when the same row is changed repeatedly.
\<close>

theorem truthful_recorder_counts_agree:
  "truthful_reachable s \<Longrightarrow> counts_agree s"
proof -
  assume "truthful_reachable s"
  then have "tallied s"
  proof (induction rule: truthful_reachable.induct)
    case (tr_create now_id now_created now_updated ds sp)
    show ?case by (rule tallied_create)
  next
    case (tr_record s ts now d row_idx q ua ca ok qo d' s')
    then show ?case using tallied_record_answer by blast
  next
    case (tr_change s row_idx was_answered previous_correct ts now d q ua ca ok qo d' s')
    then show ?case using tallied_record_answer_allow_change by blast
  qed
  then show "counts_agree s" by (rule tallied_counts_agree)
qed

lemmas recorder_eval =
  record_answer_allow_change_def init_missing_fields_def remove_old_count_def get_count_def
  get_answers_def save_current_session_def Let_def str_int_0 str_int_1 fresh_session_def
  create_empty_session_def empty_dir_def saved_def

lemma change_step1:
  "record_answer_allow_change ''t1'' ''t2'' empty_dir fresh_session 0 ''q'' ''A'' ''A'' True ''obj''
     False False = Inr (saved row0_session, row0_session)"
  by (simp add: recorder_eval row0_session_def)

lemma change_step2:
  "record_answer_allow_change ''t3'' ''t4'' empty_dir row0_session 1 ''r'' ''B'' ''C'' False ''obj''
     False False = Inr (saved row01_session, row01_session)"
  by (simp add: recorder_eval row0_session_def row01_session_def)

lemma change_step3:
  "record_answer_allow_change ''t5'' ''t6'' empty_dir row01_session 1 ''r'' ''C'' ''C'' True ''obj''
     True False = Inr (saved corrected_session, corrected_session)"
  by (simp add: recorder_eval row0_session_def row01_session_def corrected_session_def)

lemma drift_step:
  "record_answer_allow_change ''t3'' ''t4'' empty_dir row0_session 0 ''q'' ''A'' ''A'' True ''obj''
     False False = Inr (saved drifted_session, drifted_session)"
  by (simp add: recorder_eval row0_session_def drifted_session_def)

text \<open>
  Claim C1, as stated, fails: \<open>record_answer_allow_change\<close> trusts its flags. Recording
  row 0 a second time with \<open>was_answered = False\<close> leaves one record and counts two
  correct answers.
\<close>

theorem recorder_counts_drift_counterexample:
  "recorder_reachable drifted_session \<and> \<not> counts_agree drifted_session"
proof -
  have "recorder_reachable fresh_session"
    unfolding fresh_session_def by (rule rr_create)
  then have "recorder_reachable row0_session"
    using change_step1 by (rule rr_change)
  then have "recorder_reachable drifted_session"
    using drift_step by (rule rr_change)
  moreover have "\<not> counts_agree drifted_session"
    by (simp add: counts_agree_def drifted_session_def fresh_session_def create_empty_session_def)
  ultimately show ?thesis by simp
qed

theorem truthful_recorder_counts_agree_witness:
  "truthful_reachable corrected_session \<and> counts_agree corrected_session \<and>
   answered_count corrected_session = Some 2 \<and> correct_count corrected_session = Some 2 \<and>
   incorrect_count corrected_session = Some 0"
proof -
  have "truthful_reachable fresh_session"
    unfolding fresh_session_def by (rule tr_create)
  moreover have "truthful_flags fresh_session 0 False False"
    by (simp add: truthful_flags_def recorder_eval)
  ultimately have "truthful_reachable row0_session"
    using change_step1 by (rule tr_change)
  moreover have "truthful_flags row0_session 1 False False"
    by (simp add: truthful_flags_def recorder_eval row0_session_def)
  ultimately have "truthful_reachable row01_session"
    using change_step2 by (rule tr_change)
  moreover have "truthful_flags row01_session 1 True False"
    by (simp add: truthful_flags_def recorder_eval row0_session_def row01_session_def new_record_def)
  ultimately have r: "truthful_reachable corrected_session"
    using change_step3 by (rule tr_change)
  have c: "answered_count corrected_session = Some 2 \<and>
      correct_count corrected_session = Some 2 \<and> incorrect_count corrected_session = Some 0"
    by (simp add: corrected_session_def row01_session_def)
  from r truthful_recorder_counts_agree [OF r] c show ?thesis by blast
qed

subsection \<open>Bookmarks\<close>

lemma toggle_bookmark_bookmarks:
  "bookmarks (snd (toggle_bookmark now d s r)) =
     (if r \<in> set (bookmarks s) then remove1 r (bookmarks s) else bookmarks s @ [r])"
  by (simp add: toggle_bookmark_def save_current_session_def Let_def)

lemma toggle_bookmark_distinct:
  "distinct (bookmarks s) \<Longrightarrow> distinct (bookmarks (snd (toggle_bookmark now d s r)))"
  by (simp add: toggle_bookmark_bookmarks)

lemma toggle_bookmark_set:
  "distinct (bookmarks s) \<Longrightarrow>
   set (bookmarks (snd (toggle_bookmark now d s r))) =
     (if r \<in> set (bookmarks s) then set (bookmarks s) - {r} else insert r (set (bookmarks s)))"
  by (simp add: toggle_bookmark_bookmarks)

lemma toggle_twice_snd:
  "snd (toggle_twice now1 now2 d s r) =
     snd (toggle_bookmark now2 (fst (toggle_bookmark now1 d s r))
            (snd (toggle_bookmark now1 d s r)) r)"
  by (simp add: toggle_twice_def split: prod.splits)

lemma toggle_history_distinct:
  "distinct (bookmarks s) \<Longrightarrow> distinct (bookmarks (snd (toggle_history d s calls)))"
proof (induction calls arbitrary: d s)
  case Nil
  then show ?case by simp
next
  case (Cons call calls)
  obtain now r where call: "call = (now, r)" by (cases call)
  obtain d' s' where step: "toggle_bookmark now d s r = (d', s')"
    by (cases "toggle_bookmark now d s r")
  from Cons.prems have "distinct (bookmarks (snd (toggle_bookmark now d s r)))"
    by (rule toggle_bookmark_distinct)
  with step have "distinct (bookmarks s')" by simp
  then have "distinct (bookmarks (snd (toggle_history d' s' calls)))"
    by (rule Cons.IH)
  with call step show ?case by simp
qed

text \<open>
  Claim C3, as stated, fails on a session whose bookmark list holds a row twice:
  \<open>list.remove\<close> deletes one occurrence, so the row is still bookmarked after one
  toggle, and two toggles turn the bookmark set \<open>{1}\<close> into the empty set.
\<close>

theorem toggle_twice_duplicates_counterexample:
  "1 \<in> set (bookmarks duplicate_session) \<and>
   1 \<in> set (bookmarks (snd (toggle_bookmark ''t1'' empty_dir duplicate_session 1))) \<and>
   set (bookmarks (snd (toggle_twice ''t1'' ''t2'' empty_dir duplicate_session 1)))
     \<noteq> set (bookmarks duplicate_session)"
  by (simp add: toggle_twice_snd toggle_bookmark_bookmarks duplicate_session_def)

text \<open>
  Claim C3, as amended. For every session whose bookmark list holds no row twice and
  every row \<open>r\<close>: toggling \<open>r\<close> twice gives back the same set of bookmarks; one toggle
  makes \<open>r\<close> bookmarked exactly when it was not and changes no other row; and after any
  history of toggle calls the list still holds no row twice.
\<close>

theorem toggle_bookmark_membership:
  assumes "distinct (bookmarks s)"
  shows "set (bookmarks (snd (toggle_twice now1 now2 d s r))) = set (bookmarks s) \<and>
         (r \<in> set (bookmarks (snd (toggle_bookmark now d s r))) \<longleftrightarrow> r \<notin> set (bookmarks s)) \<and>
         (\<forall>x. x \<noteq> r \<longrightarrow>
            (x \<in> set (bookmarks (snd (toggle_bookmark now d s r))) \<longleftrightarrow> x \<in> set (bookmarks s))) \<and>
         distinct (bookmarks (snd (toggle_history d s calls)))"
proof (intro conjI)
  let ?s1 = "snd (toggle_bookmark now1 d s r)"
  let ?d1 = "fst (toggle_bookmark now1 d s r)"
  have d1: "distinct (bookmarks ?s1)"
    using assms by (rule toggle_bookmark_distinct)
  have "set (bookmarks (snd (toggle_bookmark now2 ?d1 ?s1 r))) = set (bookmarks s)"
    unfolding toggle_bookmark_set [OF d1] toggle_bookmark_set [OF assms] by auto
  then show "set (bookmarks (snd (toggle_twice now1 now2 d s r))) = set (bookmarks s)"
    by (simp add: toggle_twice_snd)
next
  show "r \<in> set (bookmarks (snd (toggle_bookmark now d s r))) \<longleftrightarrow> r \<notin> set (bookmarks s)"
    unfolding toggle_bookmark_set [OF assms] by auto
next
  show "\<forall>x. x \<noteq> r \<longrightarrow>
      (x \<in> set (bookmarks (snd (toggle_bookmark now d s r))) \<longleftrightarrow> x \<in> set (bookmarks s))"
    unfolding toggle_bookmark_set [OF assms] by auto
next
  show "distinct (bookmarks (snd (toggle_history d s calls)))"
    using assms by (rule toggle_history_distinct)
qed

theorem toggle_bookmark_membership_witness:
  "distinct (bookmarks fresh_session) \<and>
   set (bookmarks (snd (toggle_twice ''t1'' ''t2'' empty_dir fresh_session 3)))
     = set (bookmarks fresh_session) \<and>
   3 \<in> set (bookmarks (snd (toggle_bookmark ''t1'' empty_dir fresh_session 3))) \<and>
   distinct (bookmarks (snd (toggle_history empty_dir fresh_session
      [(''t1'', 3), (''t2'', 5), (''t3'', 3), (''t4'', 3)])))"
proof -
  have d: "distinct (bookmarks fresh_session)"
    by (simp add: fresh_session_def create_empty_session_def)
  have e: "3 \<notin> set (bookmarks fresh_session)"
    by (simp add: fresh_session_def create_empty_session_def)
  from d e toggle_bookmark_membership [OF d, of "''t1''" "''t2''" empty_dir 3 "''t1''"
      "[(''t1'', 3), (''t2'', 5), (''t3'', 3), (''t4'', 3)]"]
  show ?thesis by simp
qed

subsection \<open>Skipping to the next unanswered row\<close>

text \<open>
  The rows the loop visits: \<open>(current + k * direction) mod total_rows\<close> at its \<open>k\<close>-th
  step, for the steps after the first \<open>c\<close>.
\<close>

lemma find_SomeD: "find P xs = Some x \<Longrightarrow> P x \<and> x \<in> set xs"
  by (induction xs) (auto split: if_splits)

lemma unanswered_loop_find:
  assumes "answers s = Some al" and "0 < total_rows" and "0 \<le> c" and "c \<le> total_rows"
    and "idx mod total_rows = (cur + c * dir) mod total_rows"
  shows "unanswered_loop s cur total_rows dir c idx =
     Inr (case find (\<lambda>i. is_row_answered s i = Inr False)
                 (map (\<lambda>k. (cur + int k * dir) mod total_rows) [Suc (nat c)..<Suc (nat total_rows)]) of
            Some i \<Rightarrow> i
          | None \<Rightarrow> cur)"
  using assms(3-5)
proof (induction "nat (total_rows - c)" arbitrary: c idx)
  case 0
  then have "c = total_rows" by simp
  then show ?case by (simp add: unanswered_loop.simps)
next
  case (Suc n)
  then have lt: "c < total_rows" by linarith
  let ?idx' = "(idx + dir) mod total_rows"
  have step: "?idx' = (cur + int (Suc (nat c)) * dir) mod total_rows"
  proof -
    have "(idx + dir) mod total_rows = (idx mod total_rows + dir) mod total_rows"
      by (simp add: mod_add_left_eq)
    also have "\<dots> = ((cur + c * dir) mod total_rows + dir) mod total_rows"
      using Suc.prems(3) by simp
    also have "\<dots> = (cur + c * dir + dir) mod total_rows"
      by (simp add: mod_add_left_eq)
    also have "cur + c * dir + dir = cur + int (Suc (nat c)) * dir"
      using Suc.prems(1) by (simp add: algebra_simps)
    finally show ?thesis .
  qed
  have upt: "[Suc (nat c)..<Suc (nat total_rows)] = Suc (nat c) # [Suc (Suc (nat c))..<Suc (nat total_rows)]"
  proof (rule upt_conv_Cons)
    show "Suc (nat c) < Suc (nat total_rows)" using lt Suc.prems(1) by linarith
  qed
  have ans: "is_row_answered s ?idx' = Inr (str_int ?idx' \<in> fst ` set al)"
    using assms(1) by (simp add: is_row_answered_def)
  show ?case
  proof (cases "str_int ?idx' \<in> fst ` set al")
    case False
    with lt assms(2) ans step upt show ?thesis
      by (simp add: unanswered_loop.simps [of s cur total_rows dir c idx] py_mod_def)
  next
    case True
    have n: "n = nat (total_rows - (c + 1))" using Suc.hyps(2) by linarith
    have "unanswered_loop s cur total_rows dir (c + 1) ?idx' =
      Inr (case find (\<lambda>i. is_row_answered s i = Inr False)
                 (map (\<lambda>k. (cur + int k * dir) mod total_rows)
                    [Suc (nat (c + 1))..<Suc (nat total_rows)]) of
            Some i \<Rightarrow> i
          | None \<Rightarrow> cur)"
    proof (rule Suc.hyps(1) [OF n])
      show "0 \<le> c + 1" using Suc.prems(1) by simp
      show "c + 1 \<le> total_rows" using lt by simp
      show "?idx' mod total_rows = (cur + (c + 1) * dir) mod total_rows"
        using step Suc.prems(1) by (simp add: algebra_simps)
    qed
    moreover have "nat (c + 1) = Suc (nat c)" using Suc.prems(1) by simp
    ultimately show ?thesis
      using True lt assms(2) ans step upt
      by (simp add: unanswered_loop.simps [of s cur total_rows dir c idx] py_mod_def)
  qed
qed

lemma get_next_unanswered_row_find:
  assumes "answers s = Some al" and "0 < total_rows"
  shows "get_next_unanswered_row s cur total_rows dir =
     Inr (case find (\<lambda>i. is_row_answered s i = Inr False)
                 (map (\<lambda>k. (cur + int k * dir) mod total_rows) [1..<Suc (nat total_rows)]) of
            Some i \<Rightarrow> i
          | None \<Rightarrow> cur)"
  using unanswered_loop_find [OF assms, of 0 cur cur dir] assms(2)
  by (simp add: get_next_unanswered_row_def)

lemma get_next_unanswered_row_no_answers:
  assumes "answers s = None" and "0 < total_rows"
  shows "get_next_unanswered_row s current total_rows direction = Inl KeyError"
  using assms
  by (simp add: get_next_unanswered_row_def
      unanswered_loop.simps [of s current total_rows direction 0 current]
      py_mod_def is_row_answered_def)

text \<open>
  Claim C4, as stated for every session, fails on a session of an older version that has
  no answers mapping (the sessions for which \<open>record_answer_allow_change\<close> and
  \<open>get_answered_rows\<close> provide): \<open>is_row_answered\<close> indexes \<open>session["answers"]\<close>, and
  the first step of the loop raises \<open>KeyError\<close> instead of returning row 1.
\<close>

theorem get_next_unanswered_row_first_unanswered_counterexample:
  "answers old_session = None \<and>
   get_next_unanswered_row old_session 0 3 1 = Inl KeyError"
proof -
  have a: "answers old_session = None" by (simp add: old_session_def)
  then have "get_next_unanswered_row old_session 0 3 1 = Inl KeyError"
    by (rule get_next_unanswered_row_no_answers) simp
  with a show ?thesis by simp
qed

text \<open>
  Claim C4, as amended. For every session that holds an answers mapping and
  \<open>total_rows > 0\<close> (for every current index and every direction, so also for
  \<open>current\<close> in \<open>[0, total_rows)\<close> and direction \<open>+1\<close> or \<open>-1\<close>),
  \<open>get_next_unanswered_row\<close> returns the first unanswered index of the sequence
  \<open>(current + direction) mod total_rows\<close>, \<open>(current + 2 * direction) mod total_rows\<close>,
  ..., \<open>(current + total_rows * direction) mod total_rows\<close>, and \<open>current\<close> when all
  of these \<open>total_rows\<close> steps find answered rows.
\<close>

theorem get_next_unanswered_row_first_unanswered:
  assumes "answers s = Some al" and "0 < total_rows"
  shows "get_next_unanswered_row s current total_rows direction =
     Inr (case find (\<lambda>i. is_row_answered s i = Inr False)
                 (map (\<lambda>k. (current + int k * direction) mod total_rows) [1..<Suc (nat total_rows)]) of
            Some i \<Rightarrow> i
          | None \<Rightarrow> current)"
proof -
  have start: "current mod total_rows = (current + 0 * direction) mod total_rows"
    by simp
  have "unanswered_loop s current total_rows direction 0 current =
     Inr (case find (\<lambda>i. is_row_answered s i = Inr False)
                 (map (\<lambda>k. (current + int k * direction) mod total_rows)
                    [Suc (nat 0)..<Suc (nat total_rows)]) of
            Some i \<Rightarrow> i
          | None \<Rightarrow> current)"
    using assms(1,2) _ _ start
  proof (rule unanswered_loop_find)
    show "(0::int) \<le> 0" by simp
    show "0 \<le> total_rows" using assms(2) by simp
  qed
  then show ?thesis
    by (simp add: get_next_unanswered_row_def)
qed

lemma str_int_2: "str_int 2 = ''2''"
  by (simp add: str_int_def str_nat.simps digit_char_def)

lemmas navigation_eval =
  is_row_answered_def rows02_session_def rows012_session_def str_int_0 str_int_1 str_int_2

theorem get_next_unanswered_row_first_unanswered_witness:
  "get_next_unanswered_row rows02_session 0 3 1 = Inr 1 \<and>
   get_next_unanswered_row rows012_session 1 3 1 = Inr 1"
proof -
  have a: "answers rows02_session = Some (the (answers rows02_session))"
    by (simp add: rows02_session_def)
  have b: "answers rows012_session = Some (the (answers rows012_session))"
    by (simp add: rows012_session_def)
  have u: "[1..<Suc (nat 3)] = [1, 2, 3]"
    by (simp add: upt_rec)
  have v: "map (\<lambda>k. (0 + int k * 1) mod 3) [1, 2, 3] = [1, 2, 0]"
    "map (\<lambda>k. (1 + int k * 1) mod 3) [1, 2, 3] = [2, 0, 1]"
    by simp_all
  have "get_next_unanswered_row rows02_session 0 3 1 = Inr 1"
    using get_next_unanswered_row_first_unanswered [OF a, of 3 0 1, unfolded u v]
    by (simp add: navigation_eval)
  moreover have "get_next_unanswered_row rows012_session 1 3 1 = Inr 1"
    using get_next_unanswered_row_first_unanswered [OF b, of 3 1 1, unfolded u v]
    by (simp add: navigation_eval)
  ultimately show ?thesis by simp
qed

text \<open>
  Claim C9, as stated, fails: \<open>get_next_unanswered_row\<close> does not return for every
  session. On a session without the answers mapping and with \<open>total_rows > 0\<close> the
  loop is entered and \<open>is_row_answered\<close> raises \<open>KeyError\<close>.
\<close>

theorem get_next_unanswered_row_range_safe_counterexample:
  "answers old_session = None \<and> (0::int) < 1 \<and>
   get_next_unanswered_row old_session 2 1 (- 1) = Inl KeyError"
proof -
  have a: "answers old_session = None" by (simp add: old_session_def)
  then have "get_next_unanswered_row old_session 2 1 (- 1) = Inl KeyError"
    by (rule get_next_unanswered_row_no_answers) simp
  with a show ?thesis by simp
qed

text \<open>
  Claim C9, as amended. For every current index and every direction: when
  \<open>total_rows \<le> 0\<close> the loop is not entered and \<open>get_next_unanswered_row\<close> returns
  \<open>current_idx\<close>, for every session and without a division by zero; when
  \<open>total_rows > 0\<close> and the session holds an answers mapping, it returns, and its result
  is \<open>current_idx\<close> or an unanswered index of \<open>[0, total_rows)\<close>.
\<close>

theorem get_next_unanswered_row_range_safe:
  "(total_rows \<le> 0 \<longrightarrow> get_next_unanswered_row s current total_rows direction = Inr current) \<and>
   (0 < total_rows \<and> answers s = Some al \<longrightarrow>
      (\<exists>r. get_next_unanswered_row s current total_rows direction = Inr r \<and>
           (r = current \<or> (0 \<le> r \<and> r < total_rows \<and> is_row_answered s r = Inr False))))"
proof (intro conjI impI)
  assume "total_rows \<le> 0"
  then show "get_next_unanswered_row s current total_rows direction = Inr current"
    by (simp add: get_next_unanswered_row_def unanswered_loop.simps)
next
  assume h: "0 < total_rows \<and> answers s = Some al"
  let ?P = "\<lambda>i. is_row_answered s i = Inr False"
  let ?xs = "map (\<lambda>k. (current + int k * direction) mod total_rows) [1..<Suc (nat total_rows)]"
  have eq: "get_next_unanswered_row s current total_rows direction =
      Inr (case find ?P ?xs of Some i \<Rightarrow> i | None \<Rightarrow> current)"
    using h by (simp add: get_next_unanswered_row_find)
  show "\<exists>r. get_next_unanswered_row s current total_rows direction = Inr r \<and>
           (r = current \<or> (0 \<le> r \<and> r < total_rows \<and> is_row_answered s r = Inr False))"
  proof (cases "find ?P ?xs")
    case None
    with eq show ?thesis by simp
  next
    case (Some i)
    then have p: "?P i" and "i \<in> set ?xs"
      using find_SomeD [of ?P ?xs i] by simp_all
    then obtain k where "i = (current + int k * direction) mod total_rows"
      by auto
    with h have "0 \<le> i \<and> i < total_rows" by simp
    with p have "0 \<le> i \<and> i < total_rows \<and> is_row_answered s i = Inr False"
      by simp
    with eq Some show ?thesis by simp
  qed
qed

theorem get_next_unanswered_row_range_safe_witness:
  "get_next_unanswered_row rows02_session 5 0 1 = Inr 5 \<and>
   (\<exists>r. get_next_unanswered_row rows02_session 2 3 (- 1) = Inr r \<and>
        (r = 2 \<or> (0 \<le> r \<and> r < 3 \<and> is_row_answered rows02_session r = Inr False)))"
proof -
  have a: "answers rows02_session = Some (the (answers rows02_session))"
    by (simp add: rows02_session_def)
  have zero: "get_next_unanswered_row rows02_session 5 0 1 = Inr 5"
    using get_next_unanswered_row_range_safe [of 0 rows02_session 5 1] by simp
  from get_next_unanswered_row_range_safe
    [of 3 rows02_session 2 "- 1" "the (answers rows02_session)"] a zero
  show ?thesis by simp
qed

subsection \<open>Jumping to the next answered row\<close>

lemma digit_char_props:
  assumes "d < 10"
  shows "is_digit (digit_char d)" and "digit_val (digit_char d) = d"
    and "digit_char d \<noteq> CHR ''-''" and "digit_char d \<noteq> CHR ''+''"
proof -
  from assms have "d \<in> {0, 1, 2, 3, 4, 5, 6, 7, 8, 9}" by auto
  then show "is_digit (digit_char d)" and "digit_val (digit_char d) = d"
    and "digit_char d \<noteq> CHR ''-''" and "digit_char d \<noteq> CHR ''+''"
    by (auto simp: digit_char_def is_digit_def digit_val_def)
qed

lemma parse_digits_append:
  "parse_digits acc (xs @ ys) =
     (case parse_digits acc xs of None \<Rightarrow> None | Some a \<Rightarrow> parse_digits a ys)"
  by (induction xs arbitrary: acc) auto

lemma parse_digits_str_nat: "parse_digits 0 (str_nat n) = Some n"
proof (induction n rule: str_nat.induct)
  case (1 n)
  show ?case
  proof (cases "n < 10")
    case True
    then show ?thesis
      by (simp add: str_nat.simps [of n] digit_char_props)
  next
    case False
    then have "parse_digits 0 (str_nat (n div 10)) = Some (n div 10)"
      by (rule "1.IH")
    moreover have "n mod 10 < 10" by simp
    ultimately show ?thesis using False
      by (simp add: str_nat.simps [of n] parse_digits_append digit_char_props)
  qed
qed

lemma str_nat_head: "\<exists>c cs. str_nat n = c # cs \<and> c \<noteq> CHR ''-'' \<and> c \<noteq> CHR ''+''"
proof (induction n rule: str_nat.induct)
  case (1 n)
  show ?case
  proof (cases "n < 10")
    case True
    then show ?thesis
      by (simp add: str_nat.simps [of n] digit_char_props)
  next
    case False
    then obtain c cs where "str_nat (n div 10) = c # cs" "c \<noteq> CHR ''-''" "c \<noteq> CHR ''+''"
      using "1.IH" by blast
    with False show ?thesis
      by (simp add: str_nat.simps [of n])
  qed
qed

lemma int_of_str_str_int: "int_of_str (str_int i) = Inr i"
proof (cases "i < 0")
  case True
  obtain c cs where "str_nat (nat (- i)) = c # cs"
    using str_nat_head by blast
  then have "str_nat (nat (- i)) \<noteq> []" by simp
  with True show ?thesis
    by (simp add: int_of_str_def str_int_def parse_digits_str_nat)
next
  case False
  obtain c cs where h: "str_nat (nat i) = c # cs" "c \<noteq> CHR ''-''" "c \<noteq> CHR ''+''"
    using str_nat_head by blast
  have "parse_digits 0 (c # cs) = Some (nat i)"
    using parse_digits_str_nat [of "nat i"] h(1) by simp
  with False h show ?thesis
    by (simp add: int_of_str_def str_int_def del: parse_digits.simps)
qed

lemma str_int_inject: "str_int i = str_int j \<longleftrightarrow> i = j"
  by (metis int_of_str_str_int sum.inject(2))

lemma int_keys_str_int: "int_keys (map str_int rows) = Inr rows"
  by (induction rows) (simp_all add: int_of_str_str_int)

lemma find_ascending:
  "sorted xs \<Longrightarrow>
   find (\<lambda>i. c < i) xs =
     (if \<exists>i\<in>set xs. c < i then Some (Min {i \<in> set xs. c < (i::int)}) else None)"
proof (induction xs)
  case Nil
  then show ?case by simp
next
  case (Cons x xs)
  show ?case
  proof (cases "c < x")
    case True
    have "Min {i \<in> set (x # xs). c < i} = x"
    proof (rule Min_eqI)
      show "finite {i \<in> set (x # xs). c < i}" by simp
      show "x \<in> {i \<in> set (x # xs). c < i}" using True by simp
      fix y assume "y \<in> {i \<in> set (x # xs). c < i}"
      then show "x \<le> y" using Cons.prems by auto
    qed
    with True show ?thesis by auto
  next
    case False
    then have "{i \<in> set (x # xs). c < i} = {i \<in> set xs. c < i}" by auto
    with False Cons show ?thesis by auto
  qed
qed

lemma find_descending:
  "sorted_wrt (\<ge>) xs \<Longrightarrow>
   find (\<lambda>i. i < c) xs =
     (if \<exists>i\<in>set xs. i < c then Some (Max {i \<in> set xs. (i::int) < c}) else None)"
proof (induction xs)
  case Nil
  then show ?case by simp
next
  case (Cons x xs)
  show ?case
  proof (cases "x < c")
    case True
    have "Max {i \<in> set (x # xs). i < c} = x"
    proof (rule Max_eqI)
      show "finite {i \<in> set (x # xs). i < c}" by simp
      show "x \<in> {i \<in> set (x # xs). i < c}" using True by simp
      fix y assume "y \<in> {i \<in> set (x # xs). i < c}"
      then show "y \<le> x" using Cons.prems by auto
    qed
    with True show ?thesis by auto
  next
    case False
    then have "{i \<in> set (x # xs). i < c} = {i \<in> set xs. i < c}" by auto
    with False Cons show ?thesis by auto
  qed
qed

lemma hd_sorted_Min: "sorted xs \<Longrightarrow> xs \<noteq> [] \<Longrightarrow> hd xs = Min (set (xs::int list))"
  by (cases xs) (auto intro!: Min_eqI [symmetric])

lemma last_sorted_Max: "sorted xs \<Longrightarrow> xs \<noteq> [] \<Longrightarrow> last xs = Max (set (xs::int list))"
proof (induction xs)
  case Nil
  then show ?case by simp
next
  case (Cons x xs)
  show ?case
  proof (cases "xs = []")
    case True
    then show ?thesis by simp
  next
    case False
    with Cons have "last xs = Max (set xs)" by simp
    moreover have "x \<le> Max (set xs)"
      using Cons.prems(1) False by (simp add: Max_ge_iff) (meson last_in_set)
    ultimately show ?thesis using False by (simp add: max_def)
  qed
qed

lemma sort_Nil_iff: "sort xs = [] \<longleftrightarrow> xs = []"
  by (metis length_0_conv length_sort)

lemma get_answered_rows_sorted:
  assumes "answers s = Some al" and "map fst al = map str_int rows"
  shows "get_answered_rows (Some s) = Inr (sort rows)"
  using assms by (simp add: get_answered_rows_def int_keys_str_int)

lemma is_row_answered_rows:
  assumes "answers s = Some al" and "map fst al = map str_int rows"
  shows "is_row_answered s i = Inr (i \<in> set rows)"
proof -
  have "fst ` set al = set (map fst al)" by simp
  also have "\<dots> = str_int ` set rows" using assms(2) by simp
  finally have "str_int i \<in> fst ` set al \<longleftrightarrow> i \<in> set rows"
    by (auto simp: str_int_inject)
  with assms(1) show ?thesis by (simp add: is_row_answered_def)
qed

lemma get_next_answered_row_forward:
  assumes "answers s = Some al" and "map fst al = map str_int rows"
  shows "get_next_answered_row s current 1 =
     Inr (if rows = [] then None
          else if \<exists>i\<in>set rows. current < i then Some (Min {i \<in> set rows. current < i})
          else Some (Min (set rows)))"
proof -
  have f: "find (\<lambda>idx. current < idx) (sort rows) =
      (if \<exists>i\<in>set rows. current < i then Some (Min {i \<in> set rows. current < i}) else None)"
    using find_ascending [of "sort rows" current] by simp
  have h: "rows \<noteq> [] \<Longrightarrow> hd (sort rows) = Min (set rows)"
    using hd_sorted_Min [of "sort rows"] by (simp add: sort_Nil_iff)
  show ?thesis
    using get_answered_rows_sorted [OF assms] f h
    by (simp add: get_next_answered_row_def sort_Nil_iff)
qed

lemma get_next_answered_row_backward:
  assumes "answers s = Some al" and "map fst al = map str_int rows" and "direction \<noteq> 1"
  shows "get_next_answered_row s current direction =
     Inr (if rows = [] then None
          else if \<exists>i\<in>set rows. i < current then Some (Max {i \<in> set rows. i < current})
          else Some (Max (set rows)))"
proof -
  have "sorted_wrt (\<ge>) (rev (sort rows))"
    by (simp add: sorted_wrt_rev)
  then have f: "find (\<lambda>idx. idx < current) (rev (sort rows)) =
      (if \<exists>i\<in>set rows. i < current then Some (Max {i \<in> set rows. i < current}) else None)"
    using find_descending [of "rev (sort rows)" current] by simp
  have h: "rows \<noteq> [] \<Longrightarrow> last (sort rows) = Max (set rows)"
    using last_sorted_Max [of "sort rows"] by (simp add: sort_Nil_iff)
  show ?thesis
    using get_answered_rows_sorted [OF assms(1,2)] f h assms(3)
    by (simp add: get_next_answered_row_def sort_Nil_iff)
qed

text \<open>
  Claim C5. For a session whose answers are keyed by \<open>str\<close> of the row indices
  \<open>rows\<close> (so that row \<open>i\<close> is answered exactly when \<open>i\<close> is one of \<open>rows\<close>) and
  every current index: with direction \<open>+1\<close> the result is the smallest answered index
  greater than \<open>current\<close>, or the smallest answered index when there is none; with
  direction \<open>-1\<close> it is the largest answered index less than \<open>current\<close>, or the
  largest answered index when there is none. With no answered row, and for a session
  without an answers mapping, the result is \<open>None\<close>, which is no index.
\<close>

theorem get_next_answered_row_wraps:
  "(answers s = None \<or> answers s = Some [] \<longrightarrow>
      get_next_answered_row s current direction = Inr None) \<and>
   (answers s = Some al \<and> map fst al = map str_int rows \<longrightarrow>
      (\<forall>i. is_row_answered s i = Inr (i \<in> set rows)) \<and>
      get_next_answered_row s current 1 =
        Inr (if rows = [] then None
             else if \<exists>i\<in>set rows. current < i then Some (Min {i \<in> set rows. current < i})
             else Some (Min (set rows))) \<and>
      get_next_answered_row s current (- 1) =
        Inr (if rows = [] then None
             else if \<exists>i\<in>set rows. i < current then Some (Max {i \<in> set rows. i < current})
             else Some (Max (set rows))))"
proof (intro conjI impI allI)
  assume "answers s = None \<or> answers s = Some []"
  then show "get_next_answered_row s current direction = Inr None"
    by (auto simp: get_next_answered_row_def get_answered_rows_def)
next
  fix i
  assume "answers s = Some al \<and> map fst al = map str_int rows"
  then show "is_row_answered s i = Inr (i \<in> set rows)"
    by (simp add: is_row_answered_rows)
next
  assume "answers s = Some al \<and> map fst al = map str_int rows"
  then show "get_next_answered_row s current 1 =
        Inr (if rows = [] then None
             else if \<exists>i\<in>set rows. current < i then Some (Min {i \<in> set rows. current < i})
             else Some (Min (set rows)))"
    by (simp add: get_next_answered_row_forward)
next
  assume "answers s = Some al \<and> map fst al = map str_int rows"
  then show "get_next_answered_row s current (- 1) =
        Inr (if rows = [] then None
             else if \<exists>i\<in>set rows. i < current then Some (Max {i \<in> set rows. i < current})
             else Some (Max (set rows)))"
    by (simp add: get_next_answered_row_backward)
qed

lemma str_int_4: "str_int 4 = ''4''"
  by (simp add: str_int_def str_nat.simps digit_char_def)

theorem get_next_answered_row_wraps_witness:
  "get_next_answered_row rows024_session 3 1 = Inr (Some 4) \<and>
   get_next_answered_row rows024_session 0 (- 1) = Inr (Some 4) \<and>
   get_next_answered_row rows024_session 4 1 = Inr (Some 0) \<and>
   get_next_answered_row fresh_session 0 1 = Inr None"
proof -
  let ?al = "the (answers rows024_session)"
  have a: "answers rows024_session = Some ?al \<and> map fst ?al = map str_int [0, 4, 2]"
    by (simp add: rows024_session_def str_int_0 str_int_2 str_int_4)
  have e: "answers fresh_session = None \<or> answers fresh_session = Some []"
    by (simp add: fresh_session_def create_empty_session_def)
  have m: "{i. (i = 0 \<or> i = 4 \<or> i = 2) \<and> 3 < i} = {4::int}"
    by auto
  from get_next_answered_row_wraps [of rows024_session 3 1 ?al "[0, 4, 2]"] a
  have "get_next_answered_row rows024_session 3 1 = Inr (Some 4)"
    by (simp add: m)
  moreover from get_next_answered_row_wraps [of rows024_session 0 1 ?al "[0, 4, 2]"] a
  have "get_next_answered_row rows024_session 0 (- 1) = Inr (Some 4)"
    by (simp add: m)
  moreover from get_next_answered_row_wraps [of rows024_session 4 1 ?al "[0, 4, 2]"] a
  have "get_next_answered_row rows024_session 4 1 = Inr (Some 0)"
    by (simp add: m)
  moreover from get_next_answered_row_wraps [of fresh_session 0 1] e
  have "get_next_answered_row fresh_session 0 1 = Inr None"
    by simp
  ultimately show ?thesis by simp
qed

subsection \<open>Sessions of an older version\<close>

lemma init_missing_fields_derive: "init_missing_fields s = derive_missing s"
proof -
  have c: "sum_correct al = int (length (filter (\<lambda>(k, r). is_correct r) al))" for al
    by (simp add: sum_correct_length case_prod_unfold)
  have i: "sum_incorrect al = int (length (filter (\<lambda>(k, r). \<not> is_correct r) al))" for al
    by (simp add: sum_incorrect_length case_prod_unfold)
  show ?thesis
    by (cases s; cases "answers s"; cases "answered_count s"; cases "correct_count s";
        cases "incorrect_count s")
      (simp_all add: init_missing_fields_def derive_missing_def get_answers_def c i)
qed

lemma derive_missing_fields:
  "answers (derive_missing s) = Some (get_answers s)"
  "answered_count (derive_missing s) =
     Some (case answered_count s of Some a \<Rightarrow> a | None \<Rightarrow> int (length (get_answers s)))"
  "correct_count (derive_missing s) =
     Some (case correct_count s of Some c \<Rightarrow> c
           | None \<Rightarrow> int (length (filter (\<lambda>(k, r). is_correct r) (get_answers s))))"
  "incorrect_count (derive_missing s) =
     Some (case incorrect_count s of Some c \<Rightarrow> c
           | None \<Rightarrow> int (length (filter (\<lambda>(k, r). \<not> is_correct r) (get_answers s))))"
  by (simp_all add: derive_missing_def get_answers_def Let_def split: option.splits)

text \<open>
  Claim C8. For every session, with or without the answers mapping and the three
  counts, \<open>record_answer_allow_change\<close> first fills the missing fields as the
  specification says (\<open>answered_count\<close> the number of answers, \<open>correct_count\<close> the
  number of records with \<open>is_correct\<close> true, \<open>incorrect_count\<close> the number with it
  false, all taken from the answers that exist before the call). It then returns a
  session: the new record is written, \<open>answered_count\<close> is the new number of answers,
  and each of the two other counts is the filled value, less one (floored at zero) when
  the flags name its bucket, plus one when the new answer falls into it.
\<close>

theorem record_answer_allow_change_initializes_legacy:
  "init_missing_fields s = derive_missing s \<and>
   (\<exists>d' s'.
      record_answer_allow_change ts now d s row_idx q ua ca ok qo was_answered previous_correct
        = Inr (d', s') \<and>
      answers s' =
        Some (AList.update (str_int row_idx) (new_record q ua ca ok qo ts) (get_answers s)) \<and>
      answered_count s' =
        Some (int (length
          (AList.update (str_int row_idx) (new_record q ua ca ok qo ts) (get_answers s)))) \<and>
      correct_count s' =
        Some ((if was_answered \<and> previous_correct
               then max 0 (the (correct_count (derive_missing s)) - 1)
               else the (correct_count (derive_missing s)))
              + (if ok then 1 else 0)) \<and>
      incorrect_count s' =
        Some ((if was_answered \<and> \<not> previous_correct
               then max 0 (the (incorrect_count (derive_missing s)) - 1)
               else the (incorrect_count (derive_missing s)))
              + (if ok then 0 else 1)))"
proof
  show "init_missing_fields s = derive_missing s"
    by (rule init_missing_fields_derive)
next
  let ?s1 = "derive_missing s"
  let ?s2 = "remove_old_count was_answered previous_correct ?s1"
  let ?al' = "AList.update (str_int row_idx) (new_record q ua ca ok qo ts) (get_answers s)"
  have a2: "answers ?s2 = Some (get_answers s)"
    by (simp add: remove_old_count_def derive_missing_fields)
  let ?s5 = "if ok
      then ?s2\<lparr>answers := Some ?al', answered_count := Some (int (length ?al')),
               correct_count := Some (get_count (correct_count ?s2) + 1)\<rparr>
      else ?s2\<lparr>answers := Some ?al', answered_count := Some (int (length ?al')),
               incorrect_count := Some (get_count (incorrect_count ?s2) + 1)\<rparr>"
  have run: "record_answer_allow_change ts now d s row_idx q ua ca ok qo was_answered
      previous_correct = Inr (save_current_session now d ?s5)"
    using a2 by (simp add: record_answer_allow_change_def init_missing_fields_derive Let_def)
  have fields: "answers (snd (save_current_session now d ?s5)) = Some ?al'"
    "answered_count (snd (save_current_session now d ?s5)) = Some (int (length ?al'))"
    "correct_count (snd (save_current_session now d ?s5)) =
       Some ((if was_answered \<and> previous_correct
              then max 0 (the (correct_count ?s1) - 1) else the (correct_count ?s1))
             + (if ok then 1 else 0))"
    "incorrect_count (snd (save_current_session now d ?s5)) =
       Some ((if was_answered \<and> \<not> previous_correct
              then max 0 (the (incorrect_count ?s1) - 1) else the (incorrect_count ?s1))
             + (if ok then 0 else 1))"
    by (simp_all add: save_current_session_def Let_def remove_old_count_def
        derive_missing_fields get_count_def)
  show "\<exists>d' s'.
      record_answer_allow_change ts now d s row_idx q ua ca ok qo was_answered previous_correct
        = Inr (d', s') \<and>
      answers s' = Some ?al' \<and>
      answered_count s' = Some (int (length ?al')) \<and>
      correct_count s' =
        Some ((if was_answered \<and> previous_correct
               then max 0 (the (correct_count (derive_missing s)) - 1)
               else the (correct_count (derive_missing s)))
              + (if ok then 1 else 0)) \<and>
      incorrect_count s' =
        Some ((if was_answered \<and> \<not> previous_correct
               then max 0 (the (incorrect_count (derive_missing s)) - 1)
               else the (incorrect_count (derive_missing s)))
              + (if ok then 0 else 1))"
  proof (intro exI conjI)
    show "record_answer_allow_change ts now d s row_idx q ua ca ok qo was_answered
        previous_correct
      = Inr (fst (save_current_session now d ?s5), snd (save_current_session now d ?s5))"
      using run by simp
  qed (rule fields)+
qed

theorem record_answer_allow_change_initializes_legacy_witness:
  "\<exists>d' s'.
     record_answer_allow_change ''t5'' ''t6'' empty_dir legacy_session 1 ''r'' ''C'' ''C'' True
       ''obj'' True False = Inr (d', s') \<and>
     answered_count s' = Some 3 \<and> correct_count s' = Some 3 \<and> incorrect_count s' = Some 0"
proof -
  have g: "get_answers legacy_session =
      [(''0'', new_record ''q'' ''A'' ''A'' True ''obj'' ''t1''),
       (''1'', new_record ''r'' ''B'' ''C'' False ''obj'' ''t2''),
       (''2'', new_record ''s'' ''D'' ''D'' True ''obj'' ''t3'')]"
    by (simp add: get_answers_def legacy_session_def)
  have c: "correct_count (derive_missing legacy_session) = Some 2"
    "incorrect_count (derive_missing legacy_session) = Some 1"
    unfolding derive_missing_fields g
    by (simp_all add: legacy_session_def new_record_def)
  from record_answer_allow_change_initializes_legacy
    [of legacy_session "''t5''" "''t6''" empty_dir 1 "''r''" "''C''" "''C''" True "''obj''"
        True False]
  show ?thesis
    by (auto simp add: c g str_int_1)
qed

subsection \<open>Looking an archive up by its id\<close>






end
